theory Spec2Isabelle
  imports Complex_Main
begin

section \<open>The dataset blender of lassl (src/lassl/blender.py)\<close>

text \<open>
  The class \<open>DatasetBlender\<close> presents several source datasets as one indexable dataset.
  Its constructor computes normalised weights, then fills two index arrays with a greedy
  loop; a lookup dereferences the arrays into the chosen source.

  Conventions of the embedding:
  \<^item> a \<open>float64\<close> is modelled as an exact \<open>real\<close>: rounding, infinities and NaN are not
    part of the model, so every statement below is about the arithmetic the code intends;
  \<^item> Python's unbounded \<open>int\<close> is \<open>int\<close> where it can be negative (the lookup index) and
    \<open>nat\<close> where the code only produces counts and positions; the \<open>int32\<close> and \<open>int64\<close>
    element types of the two index arrays hold source numbers and counts no larger than the
    array length, and are modelled as \<open>nat\<close>;
  \<^item> an exception is a value \<open>Inl e\<close> of the sum type \<open>error + 'a\<close>;
  \<^item> a source dataset is a list of samples: \<open>len\<close> is its length and indexing outside it
    raises \<open>IndexError\<close>;
  \<^item> in-place mutation of the index arrays is explicit state passing: the builder takes
    the arrays and returns them updated.
\<close>

subsection \<open>Errors and indexing\<close>

text \<open>
  Both \<open>assert\<close> statements of the source raise \<open>AssertionError\<close>; they differ in the
  message, which is kept (the first assertion has none).
\<close>

datatype error = AssertionError string | ZeroDivisionError | IndexError

text \<open>
  Reading position \<open>i\<close> (a Python integer) of a sequence of length \<open>n\<close>, as lists and numpy
  arrays do it: an index in \<open>[-n, 0)\<close> counts from the end, anything outside \<open>[-n, n)\<close>
  raises \<open>IndexError\<close>.
\<close>

definition getitem_seq :: "'a list \<Rightarrow> int \<Rightarrow> error + 'a" where
  "getitem_seq xs i =
     (if 0 \<le> i \<and> i < int (length xs) then Inr (xs ! nat i)
      else if - int (length xs) \<le> i \<and> i < 0 then Inr (xs ! nat (i + int (length xs)))
      else Inl IndexError)"

subsection \<open>\<open>_build_blending_indices\<close>\<close>

text \<open>
  The inner \<open>for dataset_idx in range(num_datasets)\<close> loop. The accumulator is the pair
  \<open>(max_error, max_error_index)\<close>; \<open>sd\<close> is \<open>sample_idx_double\<close>. Reading \<open>weights\<close> or
  \<open>current_samples\<close> beyond their length raises \<open>IndexError\<close>.
\<close>

fun max_error_loop ::
  "real list \<Rightarrow> real \<Rightarrow> nat list \<Rightarrow> nat list \<Rightarrow> real \<times> nat \<Rightarrow> error + (real \<times> nat)" where
  "max_error_loop weights sd current_samples [] acc = Inr acc"
| "max_error_loop weights sd current_samples (dataset_idx # rest) (max_error, max_error_index) =
     (if dataset_idx < length weights \<and> dataset_idx < length current_samples then
        (if weights ! dataset_idx * sd - real (current_samples ! dataset_idx) > max_error
         then max_error_loop weights sd current_samples rest
                (weights ! dataset_idx * sd - real (current_samples ! dataset_idx), dataset_idx)
         else max_error_loop weights sd current_samples rest (max_error, max_error_index))
      else Inl IndexError)"

text \<open>
  One iteration of the outer loop, on the state
  \<open>(dataset_index, dataset_sample_index, current_samples)\<close>.
\<close>

type_synonym build_state = "nat list \<times> nat list \<times> nat list"

fun build_step :: "real list \<Rightarrow> nat \<Rightarrow> nat \<Rightarrow> build_state \<Rightarrow> error + build_state" where
  "build_step weights num_datasets sample_idx (dataset_index, dataset_sample_index, current_samples) =
     (if weights = [] \<or> current_samples = [] then Inl IndexError
      else
        (case max_error_loop weights (max (real sample_idx) 1) current_samples [0..<num_datasets]
                (weights ! 0 * max (real sample_idx) 1 - real (current_samples ! 0), 0) of
           Inl e \<Rightarrow> Inl e
         | Inr (max_error, max_error_index) \<Rightarrow>
             (if sample_idx < length dataset_index \<and> sample_idx < length dataset_sample_index then
                Inr (dataset_index[sample_idx := max_error_index],
                     dataset_sample_index[sample_idx := current_samples ! max_error_index],
                     current_samples[max_error_index := current_samples ! max_error_index + 1])
              else Inl IndexError)))"

text \<open>The outer \<open>for sample_idx in range(size)\<close> loop; it stops at the first exception.\<close>

fun build_loop :: "real list \<Rightarrow> nat \<Rightarrow> nat list \<Rightarrow> build_state \<Rightarrow> error + build_state" where
  "build_loop weights num_datasets [] st = Inr st"
| "build_loop weights num_datasets (sample_idx # rest) st =
     (case build_step weights num_datasets sample_idx st of
        Inl e \<Rightarrow> Inl e
      | Inr st' \<Rightarrow> build_loop weights num_datasets rest st')"

definition build_blending_indices ::
  "nat list \<Rightarrow> nat list \<Rightarrow> real list \<Rightarrow> nat \<Rightarrow> nat \<Rightarrow> error + (nat list \<times> nat list)" where
  "build_blending_indices dataset_index dataset_sample_index weights num_datasets size_arg =
     (case build_loop weights num_datasets [0..<size_arg]
             (dataset_index, dataset_sample_index, replicate num_datasets 0) of
        Inl e \<Rightarrow> Inl e
      | Inr (di, si, current_samples) \<Rightarrow> Inr (di, si))"

subsection \<open>\<open>_normalize_weight\<close>\<close>

definition normalize_weight :: "real list \<Rightarrow> error + real list" where
  "normalize_weight weights =
     (if sum_list weights > 0 then Inr (map (\<lambda>w. w / sum_list weights) weights)
      else Inl (AssertionError
        ''sum of all the weights is zero. did you input zero length list of dataset?''))"

subsection \<open>The class: \<open>__init__\<close>, \<open>__len__\<close>, \<open>__getitem__\<close>\<close>

record 'a blender =
  datasets :: "'a list list"
  size_blender :: nat
  dataset_index :: "nat list"
  dataset_sample_index :: "nat list"

text \<open>
  The comprehension \<open>[length / self.size for length in lengths]\<close>: true division of two
  integers, which raises \<open>ZeroDivisionError\<close> at the first element when \<open>self.size\<close> is 0,
  and divides nothing when \<open>lengths\<close> is empty.
\<close>

fun auto_weights :: "nat list \<Rightarrow> nat \<Rightarrow> error + real list" where
  "auto_weights [] sz = Inr []"
| "auto_weights (l # ls) sz =
     (if sz = 0 then Inl ZeroDivisionError
      else (case auto_weights ls sz of
              Inl e \<Rightarrow> Inl e
            | Inr ws \<Rightarrow> Inr (real l / real sz # ws)))"

text \<open>
  The native builder that \<open>get_datasets_utils()\<close> may return lives outside the Python
  sources; it is a parameter of the constructor. \<open>None\<close> selects the Python
  implementation above, as in the source.
\<close>

type_synonym builder =
  "nat list \<Rightarrow> nat list \<Rightarrow> real list \<Rightarrow> nat \<Rightarrow> nat \<Rightarrow> error + (nat list \<times> nat list)"

definition init :: "builder option \<Rightarrow> 'a list list \<Rightarrow> real list option \<Rightarrow> error + 'a blender" where
  "init cpp_utils dss weights_arg =
     (let num_datasets = length dss;
          lengths = map length dss;
          sz = sum_list lengths
      in case (case weights_arg of None \<Rightarrow> auto_weights lengths sz | Some ws \<Rightarrow> Inr ws) of
           Inl e \<Rightarrow> Inl e
         | Inr ws \<Rightarrow>
             if num_datasets \<noteq> length ws then Inl (AssertionError [])
             else
               (case normalize_weight ws of
                  Inl e \<Rightarrow> Inl e
                | Inr nws \<Rightarrow>
                    (case (case cpp_utils of None \<Rightarrow> build_blending_indices | Some f \<Rightarrow> f)
                            (replicate sz 0) (replicate sz 0) nws num_datasets sz of
                       Inl e \<Rightarrow> Inl e
                     | Inr (di, si) \<Rightarrow>
                         Inr \<lparr>datasets = dss, size_blender = sz,
                              dataset_index = di, dataset_sample_index = si\<rparr>)))"

definition len :: "'a blender \<Rightarrow> nat" where
  "len self = size_blender self"

definition getitem :: "'a blender \<Rightarrow> int \<Rightarrow> error + 'a" where
  "getitem self idx =
     (case getitem_seq (dataset_index self) idx of
        Inl e \<Rightarrow> Inl e
      | Inr dataset_idx \<Rightarrow>
          (case getitem_seq (datasets self) (int dataset_idx) of
             Inl e \<Rightarrow> Inl e
           | Inr ds \<Rightarrow>
               (case getitem_seq (dataset_sample_index self) idx of
                  Inl e \<Rightarrow> Inl e
                | Inr sample_idx \<Rightarrow>
                    getitem_seq ds (int (sample_idx mod max (length ds) 1)))))"

subsection \<open>Notions used to state the properties\<close>

text \<open>
  \<open>picks_before di i k\<close> is the number of positions \<open>j < i\<close> with \<open>di[j] = k\<close>: how often
  source \<open>k\<close> was picked in the first \<open>i\<close> slots of a dataset-index array.
\<close>

definition picks_before :: "nat list \<Rightarrow> nat \<Rightarrow> nat \<Rightarrow> nat" where
  "picks_before di i k = length (filter (\<lambda>j. di ! j = k) [0..<i])"

text \<open>
  The error of source \<open>k\<close> at position \<open>i\<close>, written with the picks recorded in the array
  instead of the loop's counters: \<open>weights[k] * max(i, 1) - allocated[k]\<close>.
\<close>

definition error_at :: "real list \<Rightarrow> nat list \<Rightarrow> nat \<Rightarrow> nat \<Rightarrow> real" where
  "error_at weights di i k = weights ! k * max (real i) 1 - real (picks_before di i k)"

text \<open>
  \<open>m\<close> is the lowest of the indices below \<open>n\<close> at which \<open>f\<close> is largest.
\<close>

definition is_first_max :: "(nat \<Rightarrow> real) \<Rightarrow> nat \<Rightarrow> nat \<Rightarrow> bool" where
  "is_first_max f n m \<longleftrightarrow> m < n \<and> (\<forall>j<n. f j \<le> f m) \<and> (\<forall>j<m. f j < f m)"

text \<open>
  The loop invariant of the builder after \<open>i\<close> iterations: the arrays keep their length,
  the counters are the picks made so far, and every slot filled so far holds the greedy
  choice and the count that source had before it.
\<close>

definition build_inv :: "real list \<Rightarrow> nat \<Rightarrow> nat \<Rightarrow> nat \<Rightarrow> nat \<Rightarrow> build_state \<Rightarrow> bool" where
  "build_inv w n ld ls i st \<longleftrightarrow>
     (case st of (di, si, cur) \<Rightarrow>
        length di = ld \<and> length si = ls \<and> length cur = n
        \<and> (\<forall>k<n. cur ! k = picks_before di i k)
        \<and> (\<forall>j<i. is_first_max (error_at w di j) n (di ! j)
                  \<and> si ! j = picks_before di j (di ! j)))"

text \<open>
  Two builder states agree on the counters and on the first \<open>i\<close> slots of both arrays.
\<close>

definition same_prefix :: "nat \<Rightarrow> build_state \<Rightarrow> build_state \<Rightarrow> bool" where
  "same_prefix i st st' \<longleftrightarrow>
     (case st of (di, si, cur) \<Rightarrow> case st' of (di', si', cur') \<Rightarrow>
        cur = cur' \<and> length di = length di' \<and> length si = length si'
        \<and> take i di = take i di' \<and> take i si = take i si')"

section \<open>Properties\<close>

subsection \<open>The greedy loop\<close>

lemma max_error_loop_append:
  "max_error_loop w sd cur (xs @ ys) acc =
     (case max_error_loop w sd cur xs acc of Inl e \<Rightarrow> Inl e | Inr acc' \<Rightarrow> max_error_loop w sd cur ys acc')"
proof (induction xs arbitrary: acc)
  case Nil
  show ?case by simp
next
  case (Cons x xs)
  obtain me mi where acc: "acc = (me, mi)" by (cases acc)
  show ?case unfolding acc by (simp add: Cons.IH)
qed

lemma max_error_loop_upt:
  assumes "n \<le> length w" "n \<le> length cur"
  shows "\<exists>m. max_error_loop w sd cur [0..<n] (w ! 0 * sd - real (cur ! 0), 0)
              = Inr (w ! m * sd - real (cur ! m), m)
           \<and> (m < n \<or> m = 0)
           \<and> (\<forall>j<n. w ! j * sd - real (cur ! j) \<le> w ! m * sd - real (cur ! m))
           \<and> (\<forall>j<m. w ! j * sd - real (cur ! j) < w ! m * sd - real (cur ! m))"
  using assms
proof (induction n)
  case 0
  show ?case by simp
next
  case (Suc n)
  then obtain m where m: "max_error_loop w sd cur [0..<n] (w ! 0 * sd - real (cur ! 0), 0)
              = Inr (w ! m * sd - real (cur ! m), m)"
           "m < n \<or> m = 0"
           "\<forall>j<n. w ! j * sd - real (cur ! j) \<le> w ! m * sd - real (cur ! m)"
           "\<forall>j<m. w ! j * sd - real (cur ! j) < w ! m * sd - real (cur ! m)"
    by auto
  have n: "n < length w" "n < length cur" using Suc.prems by auto
  show ?case
  proof (cases "w ! n * sd - real (cur ! n) > w ! m * sd - real (cur ! m)")
    case True
    have "max_error_loop w sd cur [0..<Suc n] (w ! 0 * sd - real (cur ! 0), 0)
            = Inr (w ! n * sd - real (cur ! n), n)"
      using True n m(1) by (simp add: max_error_loop_append)
    moreover have "\<forall>j<Suc n. w ! j * sd - real (cur ! j) \<le> w ! n * sd - real (cur ! n)"
      using True m(3) by (auto simp: less_Suc_eq intro: less_imp_le order.trans)
    moreover have "\<forall>j<n. w ! j * sd - real (cur ! j) < w ! n * sd - real (cur ! n)"
      using True m(3) by (auto intro: le_less_trans)
    ultimately show ?thesis by blast
  next
    case False
    have "max_error_loop w sd cur [0..<Suc n] (w ! 0 * sd - real (cur ! 0), 0)
            = Inr (w ! m * sd - real (cur ! m), m)"
      using False n m(1) by (simp add: max_error_loop_append)
    moreover have "\<forall>j<Suc n. w ! j * sd - real (cur ! j) \<le> w ! m * sd - real (cur ! m)"
      using False m(3) by (auto simp: less_Suc_eq)
    moreover have "m < Suc n \<or> m = 0" using m(2) by auto
    ultimately show ?thesis using m(4) by blast
  qed
qed

lemma picks_before_update:
  "j \<le> i \<Longrightarrow> picks_before (di[i := m]) j k = picks_before di j k"
  unfolding picks_before_def by (rule arg_cong [where f = length], rule filter_cong) auto

lemma picks_before_Suc:
  "picks_before di (Suc i) k = picks_before di i k + (if di ! i = k then 1 else 0)"
  by (simp add: picks_before_def)

lemma error_at_update:
  "j \<le> i \<Longrightarrow> error_at w (di[i := m]) j = error_at w di j"
  by (rule ext) (simp add: error_at_def picks_before_update)

lemma build_step_inv:
  assumes inv: "build_inv w n ld ls i (di, si, cur)"
    and n: "1 \<le> n" "n \<le> length w" and i: "i < ld" "i < ls"
  shows "\<exists>st'. build_step w n i (di, si, cur) = Inr st' \<and> build_inv w n ld ls (Suc i) st'"
proof -
  from inv have len: "length di = ld" "length si = ls" "length cur = n"
    and cur: "\<forall>k<n. cur ! k = picks_before di i k"
    and old: "\<forall>j<i. is_first_max (error_at w di j) n (di ! j) \<and> si ! j = picks_before di j (di ! j)"
    by (simp_all add: build_inv_def)
  let ?sd = "max (real i) 1"
  from max_error_loop_upt [of n w cur ?sd] n len
  obtain m where m: "max_error_loop w ?sd cur [0..<n] (w ! 0 * ?sd - real (cur ! 0), 0)
              = Inr (w ! m * ?sd - real (cur ! m), m)"
           "m < n \<or> m = 0"
           "\<forall>j<n. w ! j * ?sd - real (cur ! j) \<le> w ! m * ?sd - real (cur ! m)"
           "\<forall>j<m. w ! j * ?sd - real (cur ! j) < w ! m * ?sd - real (cur ! m)"
    by auto
  from m(2) n have mn: "m < n" by auto
  let ?di = "di[i := m]" and ?si = "si[i := cur ! m]" and ?cur = "cur[m := cur ! m + 1]"
  have ne: "w \<noteq> []" "cur \<noteq> []" using n len by auto
  have step: "build_step w n i (di, si, cur) = Inr (?di, ?si, ?cur)"
    using ne m(1) i len by simp
  have err: "\<And>k. k < n \<Longrightarrow> error_at w di i k = w ! k * ?sd - real (cur ! k)"
    using cur by (simp add: error_at_def)
  have first: "is_first_max (error_at w di i) n m"
    unfolding is_first_max_def using mn m(3,4) err by auto
  have "\<forall>k<n. ?cur ! k = picks_before ?di (Suc i) k"
  proof (intro allI impI)
    fix k assume k: "k < n"
    have "picks_before ?di (Suc i) k = picks_before di i k + (if m = k then 1 else 0)"
      using i len by (simp add: picks_before_Suc picks_before_update)
    then show "?cur ! k = picks_before ?di (Suc i) k"
      using k mn len cur by (auto simp: nth_list_update)
  qed
  moreover have "\<forall>j<Suc i. is_first_max (error_at w ?di j) n (?di ! j)
                  \<and> ?si ! j = picks_before ?di j (?di ! j)"
  proof (intro allI impI)
    fix j assume j: "j < Suc i"
    show "is_first_max (error_at w ?di j) n (?di ! j) \<and> ?si ! j = picks_before ?di j (?di ! j)"
    proof (cases "j = i")
      case True
      then show ?thesis
        using first i len cur mn by (simp add: error_at_update picks_before_update)
    next
      case False
      with j have "j < i" by simp
      then show ?thesis
        using old by (simp add: error_at_update picks_before_update)
    qed
  qed
  ultimately have "build_inv w n ld ls (Suc i) (?di, ?si, ?cur)"
    using len by (simp add: build_inv_def)
  with step show ?thesis by blast
qed

lemma build_loop_append:
  "build_loop w n (xs @ ys) st =
     (case build_loop w n xs st of Inl e \<Rightarrow> Inl e | Inr st' \<Rightarrow> build_loop w n ys st')"
  by (induction xs arbitrary: st) (simp_all split: sum.splits)

lemma build_loop_inv:
  assumes n: "1 \<le> n" "n \<le> length w"
  shows "i \<le> length di0 \<Longrightarrow> i \<le> length si0 \<Longrightarrow>
     \<exists>st. build_loop w n [0..<i] (di0, si0, replicate n 0) = Inr st
        \<and> build_inv w n (length di0) (length si0) i st"
proof (induction i)
  case 0
  show ?case by (simp add: build_inv_def picks_before_def)
next
  case (Suc i)
  then obtain st where st: "build_loop w n [0..<i] (di0, si0, replicate n 0) = Inr st"
      "build_inv w n (length di0) (length si0) i st"
    by auto
  obtain di si cur where [simp]: "st = (di, si, cur)" by (cases st)
  from build_step_inv [of w n "length di0" "length si0" i di si cur] st(2) n Suc.prems
  obtain st' where "build_step w n i (di, si, cur) = Inr st'"
      "build_inv w n (length di0) (length si0) (Suc i) st'"
    by auto
  with st(1) show ?case by (simp add: build_loop_append)
qed

lemma build_returns_greedy_arrays:
  assumes "1 \<le> n" and "n \<le> length w" and "S \<le> length di0" and "S \<le> length si0"
  shows "\<exists>di si. build_blending_indices di0 si0 w n S = Inr (di, si)
           \<and> length di = length di0 \<and> length si = length si0
           \<and> (\<forall>i<S. is_first_max (error_at w di i) n (di ! i)
                    \<and> di ! i < n
                    \<and> si ! i = picks_before di i (di ! i))"
proof -
  from build_loop_inv [OF assms(1,2), of S di0 si0] assms(3,4)
  obtain st where st: "build_loop w n [0..<S] (di0, si0, replicate n 0) = Inr st"
      "build_inv w n (length di0) (length si0) S st"
    by auto
  obtain di si cur where eq: "st = (di, si, cur)" by (cases st)
  have "build_blending_indices di0 si0 w n S = Inr (di, si)"
    using st(1) eq by (simp add: build_blending_indices_def)
  moreover have "length di = length di0" "length si = length si0"
    using st(2) eq by (simp_all add: build_inv_def)
  moreover have "\<forall>i<S. is_first_max (error_at w di i) n (di ! i)
                    \<and> di ! i < n \<and> si ! i = picks_before di i (di ! i)"
    using st(2) eq by (simp add: build_inv_def is_first_max_def)
  ultimately show ?thesis by blast
qed



text \<open>
  C7. With two sources of equal weight \<open>[0.5, 0.5]\<close> and total size 4 the builder fills
  \<open>dataset_index\<close> with \<open>[0, 1, 0, 1]\<close> (and \<open>dataset_sample_index\<close> with \<open>[0, 0, 1, 1]\<close>):
  source 0 wins the tie at position 0 and the picks alternate.
\<close>

theorem tie_break_alternation:
  "build_blending_indices [0, 0, 0, 0] [0, 0, 0, 0] [1/2, 1/2] 2 4 = Inr ([0, 1, 0, 1], [0, 0, 1, 1])"
  by (simp add: build_blending_indices_def upt_conv_Cons)

subsection \<open>Discrepancy of the allocation\<close>














subsection \<open>Weight normalisation\<close>




subsection \<open>Construction failures\<close>

text \<open>
  C8. When an explicit weight list is given whose length differs from the number of
  sources, construction fails with the \<open>AssertionError\<close> of
  \<open>assert num_datasets == len(weights)\<close> (the specification's \<open>ConfigurationError\<close>),
  whatever index builder is installed: the builder is never reached.
\<close>

theorem weight_count_mismatch:
  "length ws \<noteq> length dss \<Longrightarrow> init cpp_utils dss (Some ws) = Inl (AssertionError [])"
  by (simp add: init_def)

theorem weight_count_mismatch_witness:
  "init None [[1::nat, 2], [3]] (Some [1/2, 1/4, 1/4]) = Inl (AssertionError [])
   \<and> init (Some (\<lambda>di si w n s. Inr ([], []))) [[1::nat, 2], [3]] (Some [1]) = Inl (AssertionError [])"
  using weight_count_mismatch [of "[1/2, 1/4, 1/4]" "[[1::nat, 2], [3]]" None]
    weight_count_mismatch [of "[1]" "[[1::nat, 2], [3]]" "Some (\<lambda>di si w n s. Inr ([], []))"]
  by simp

text \<open>
  C10, as claimed: with absent weights and total length 0, construction fails with
  \<open>ZeroDivisionError\<close> and the weight-sum check is unreachable. This fails for the empty
  source list: the comprehension divides nothing, and the weight-sum assertion is what
  raises.
\<close>

theorem empty_source_list_counterexample:
  "sum_list (map length ([] :: nat list list)) = 0
   \<and> init None ([] :: nat list list) None \<noteq> Inl ZeroDivisionError
   \<and> init None ([] :: nat list list) None = Inl (AssertionError
        ''sum of all the weights is zero. did you input zero length list of dataset?'')"
  by (simp add: init_def normalize_weight_def)

lemma auto_weights_zero: "ls \<noteq> [] \<Longrightarrow> auto_weights ls 0 = Inl ZeroDivisionError"
  by (cases ls) simp_all

text \<open>
  C10, amended. With absent weights and total length 0, construction fails with
  \<open>ZeroDivisionError\<close> when there is at least one source (all of them empty), before the
  weight-sum check; with no source at all it fails at the weight-sum check instead.
\<close>

theorem absent_weights_zero_size:
  "sum_list (map length dss) = 0 \<Longrightarrow>
   init cpp_utils dss None =
     (if dss = [] then Inl (AssertionError
        ''sum of all the weights is zero. did you input zero length list of dataset?'')
      else Inl ZeroDivisionError)"
proof (cases "dss = []")
  case True
  then show ?thesis by (simp add: init_def normalize_weight_def)
next
  case False
  assume z: "sum_list (map length dss) = 0"
  from False have aw: "auto_weights (map length dss) 0 = Inl ZeroDivisionError"
    by (simp add: auto_weights_zero)
  have "init cpp_utils dss None = Inl ZeroDivisionError"
    unfolding init_def Let_def z by (simp only: aw option.case sum.case)
  with False show ?thesis by simp
qed

theorem absent_weights_zero_size_witness:
  "sum_list (map length [[], [] :: nat list]) = 0
   \<and> init None [[], [] :: nat list] None = Inl ZeroDivisionError"
  using absent_weights_zero_size [of "[[], [] :: nat list]" None]
  by simp

lemma auto_weights_nonzero:
  "sz \<noteq> 0 \<Longrightarrow> auto_weights ls sz = Inr (map (\<lambda>l. real l / real sz) ls)"
  by (induction ls) simp_all

lemma auto_weights_length:
  "auto_weights ls sz = Inr ws \<Longrightarrow> length ws = length ls"
proof (induction ls arbitrary: ws)
  case Nil
  then show ?case by auto
next
  case (Cons l ls)
  then show ?case by (auto split: if_splits sum.splits)
qed

lemma sum_list_real_divide:
  "sum_list (map (\<lambda>l. real l / c) ls) = real (sum_list ls) / c"
  by (induction ls) (simp_all add: add_divide_distrib)

lemma sum_list_pos_nonempty: "0 < sum_list (ws :: real list) \<Longrightarrow> ws \<noteq> []"
  by auto

subsection \<open>The constructed view\<close>

lemma init_InrD:
  assumes "init cpp_utils dss wa = Inr v"
  shows "\<exists>nws di si. length nws = length dss \<and> 1 \<le> length dss
          \<and> (case cpp_utils of None \<Rightarrow> build_blending_indices | Some f \<Rightarrow> f)
               (replicate (sum_list (map length dss)) 0) (replicate (sum_list (map length dss)) 0)
               nws (length dss) (sum_list (map length dss)) = Inr (di, si)
          \<and> v = \<lparr>datasets = dss, size_blender = sum_list (map length dss),
                  dataset_index = di, dataset_sample_index = si\<rparr>"
proof -
  let ?sz = "sum_list (map length dss)"
  let ?b = "case cpp_utils of None \<Rightarrow> build_blending_indices | Some f \<Rightarrow> f"
  from assms obtain ws where ws:
      "(case wa of None \<Rightarrow> auto_weights (map length dss) ?sz | Some ws \<Rightarrow> Inr ws) = Inr ws"
    unfolding init_def Let_def by (auto split: sum.splits)
  with assms have len: "length dss = length ws"
    unfolding init_def Let_def by (auto split: sum.splits if_splits)
  with assms ws obtain nws where nws: "normalize_weight ws = Inr nws"
    unfolding init_def Let_def by (auto split: sum.splits if_splits)
  with assms ws len obtain di si where b: "?b (replicate ?sz 0) (replicate ?sz 0) nws (length dss) ?sz = Inr (di, si)"
    and v: "v = \<lparr>datasets = dss, size_blender = ?sz, dataset_index = di, dataset_sample_index = si\<rparr>"
    unfolding init_def Let_def by (auto split: sum.splits if_splits prod.splits)
  from nws have "0 < sum_list ws" "nws = map (\<lambda>w. w / sum_list ws) ws"
    by (auto simp: normalize_weight_def split: if_splits)
  then have "ws \<noteq> []" "length nws = length ws" by auto
  with len b v show ?thesis by (cases ws) auto
qed

lemma init_valid:
  assumes "case wa of None \<Rightarrow> 0 < sum_list (map length dss)
           | Some ws \<Rightarrow> length ws = length dss \<and> 0 < sum_list ws"
  shows "\<exists>v. init None dss wa = Inr v"
proof -
  define sz where "sz = sum_list (map length dss)"
  obtain ws where ws:
      "(case wa of None \<Rightarrow> auto_weights (map length dss) sz | Some ws \<Rightarrow> Inr ws) = Inr ws"
      "length ws = length dss" "0 < sum_list ws"
  proof (cases wa)
    case None
    with assms have pos: "0 < sz" by (simp add: sz_def)
    let ?ws = "map (\<lambda>l. real l / real sz) (map length dss)"
    have "sum_list ?ws = real (sum_list (map length dss)) / real sz"
      by (rule sum_list_real_divide)
    also have "\<dots> = 1" using pos unfolding sz_def [symmetric] by simp
    finally have "0 < sum_list ?ws" by simp
    moreover have "auto_weights (map length dss) sz = Inr ?ws"
      using pos by (simp add: auto_weights_nonzero)
    moreover have "length ?ws = length dss" by simp
    ultimately show ?thesis using None that [of ?ws] by simp
  next
    case (Some ws)
    with assms that [of ws] show ?thesis by simp
  qed
  let ?nws = "map (\<lambda>w. w / sum_list ws) ws"
  have nws: "normalize_weight ws = Inr ?nws" using ws(3) by (simp add: normalize_weight_def)
  have n: "1 \<le> length dss" using ws(2,3) by (cases ws) auto
  from build_returns_greedy_arrays [of "length dss" ?nws sz "replicate sz 0" "replicate sz 0"]
    n ws(2)
  obtain di si where "build_blending_indices (replicate sz 0) (replicate sz 0) ?nws (length dss) sz
      = Inr (di, si)"
    by auto
  then show ?thesis
    unfolding init_def Let_def sz_def [symmetric] ws(1) using ws(2) nws by simp
qed

lemma init_None_arrays:
  assumes "init None dss wa = Inr v"
  shows "datasets v = dss" and "size_blender v = sum_list (map length dss)"
    and "length (dataset_index v) = size_blender v"
    and "length (dataset_sample_index v) = size_blender v"
    and "\<forall>i<size_blender v. dataset_index v ! i < length dss
           \<and> dataset_sample_index v ! i = picks_before (dataset_index v) i (dataset_index v ! i)"
proof -
  let ?sz = "sum_list (map length dss)"
  from init_InrD [OF assms] obtain nws di si where
    n: "length nws = length dss" "1 \<le> length dss"
    and b: "build_blending_indices (replicate ?sz 0) (replicate ?sz 0) nws (length dss) ?sz = Inr (di, si)"
    and v: "v = \<lparr>datasets = dss, size_blender = ?sz, dataset_index = di, dataset_sample_index = si\<rparr>"
    by auto
  from build_returns_greedy_arrays [of "length dss" nws ?sz "replicate ?sz 0" "replicate ?sz 0"]
    n b
  have g: "length di = ?sz" "length si = ?sz"
    "\<forall>i<?sz. di ! i < length dss \<and> si ! i = picks_before di i (di ! i)"
    by auto
  show "datasets v = dss" "size_blender v = ?sz" using v by simp_all
  show "length (dataset_index v) = size_blender v" "length (dataset_sample_index v) = size_blender v"
    using v g by simp_all
  show "\<forall>i<size_blender v. dataset_index v ! i < length dss
           \<and> dataset_sample_index v ! i = picks_before (dataset_index v) i (dataset_index v ! i)"
    using v g(3) by simp
qed

text \<open>
  C6. Whatever the weights argument (absent or a list) and whatever builder is installed,
  a view that construction returns has \<open>len\<close> equal to the sum of the source lengths; and
  with the Python builder construction does return a view for absent weights over a
  non-empty total length and for every explicit weight list of the right length and
  positive sum.
\<close>

theorem len_is_sum_of_lengths:
  "(init cpp_utils dss wa = Inr v \<longrightarrow> len v = sum_list (map length dss))
   \<and> ((case wa of None \<Rightarrow> 0 < sum_list (map length dss)
              | Some ws \<Rightarrow> length ws = length dss \<and> 0 < sum_list ws)
        \<longrightarrow> (\<exists>v'. init None dss wa = Inr v' \<and> len v' = sum_list (map length dss)))"
proof (intro conjI impI)
  assume "init cpp_utils dss wa = Inr v"
  from init_InrD [OF this] show "len v = sum_list (map length dss)"
    by (auto simp: len_def)
next
  assume "case wa of None \<Rightarrow> 0 < sum_list (map length dss)
              | Some ws \<Rightarrow> length ws = length dss \<and> 0 < sum_list ws"
  from init_valid [OF this] obtain v' where v': "init None dss wa = Inr v'" by blast
  from init_InrD [OF v'] have "len v' = sum_list (map length dss)"
    by (auto simp: len_def)
  with v' show "\<exists>v'. init None dss wa = Inr v' \<and> len v' = sum_list (map length dss)"
    by blast
qed

theorem len_is_sum_of_lengths_witness:
  "init None [[10, 11, 12], [20, 21, 22, 23, 24 :: nat]] (Some [7, 1])
     = Inr \<lparr>datasets = [[10, 11, 12], [20, 21, 22, 23, 24]], size_blender = 8,
            dataset_index = [0, 1, 0, 0, 0, 0, 0, 0],
            dataset_sample_index = [0, 0, 1, 2, 3, 4, 5, 6]\<rparr>
   \<and> len \<lparr>datasets = [[10, 11, 12], [20, 21, 22, 23, 24 :: nat]], size_blender = 8,
            dataset_index = [0, 1, 0, 0, 0, 0, 0, 0],
            dataset_sample_index = [0, 0, 1, 2, 3, 4, 5, 6]\<rparr>
       = sum_list (map length [[10, 11, 12], [20, 21, 22, 23, 24 :: nat]])
   \<and> (\<exists>v'. init None [[10, 11, 12], [20, 21, 22, 23, 24 :: nat]] None = Inr v'
          \<and> len v' = sum_list (map length [[10, 11, 12], [20, 21, 22, 23, 24 :: nat]]))"
proof -
  have h: "init None [[10, 11, 12], [20, 21, 22, 23, 24 :: nat]] (Some [7, 1])
     = Inr \<lparr>datasets = [[10, 11, 12], [20, 21, 22, 23, 24]], size_blender = 8,
            dataset_index = [0, 1, 0, 0, 0, 0, 0, 0],
            dataset_sample_index = [0, 0, 1, 2, 3, 4, 5, 6]\<rparr>"
    by (simp add: init_def normalize_weight_def build_blending_indices_def upt_conv_Cons)
  show ?thesis
    using h len_is_sum_of_lengths [of None "[[10, 11, 12], [20, 21, 22, 23, 24 :: nat]]" "Some [7, 1]"
        "\<lparr>datasets = [[10, 11, 12], [20, 21, 22, 23, 24]], size_blender = 8,
            dataset_index = [0, 1, 0, 0, 0, 0, 0, 0],
            dataset_sample_index = [0, 0, 1, 2, 3, 4, 5, 6]\<rparr>"]
      len_is_sum_of_lengths [of None "[[10, 11, 12], [20, 21, 22, 23, 24 :: nat]]" None]
    by simp
qed

subsection \<open>Lookup\<close>

lemma getitem_seq_nat:
  "getitem_seq xs (int j) = (if j < length xs then Inr (xs ! j) else Inl IndexError)"
  by (simp add: getitem_seq_def)

lemma max_length_one: "xs \<noteq> [] \<Longrightarrow> max (length xs) (Suc 0) = length xs"
  by (cases xs) simp_all

lemma getitem_unfold:
  "getitem v i =
     (case getitem_seq (dataset_index v) i of
        Inl e \<Rightarrow> Inl e
      | Inr k \<Rightarrow>
          if k < length (datasets v) then
            (case getitem_seq (dataset_sample_index v) i of
               Inl e \<Rightarrow> Inl e
             | Inr s \<Rightarrow>
                 if length (datasets v ! k) = 0 then Inl IndexError
                 else Inr (datasets v ! k ! (s mod length (datasets v ! k))))
          else Inl IndexError)"
  unfolding getitem_def
  by (auto simp: getitem_seq_nat max_length_one split: sum.splits)

text \<open>
  C3. In a view built by the Python builder, for every index \<open>0 \<le> i < S\<close>, with
  \<open>k = dataset_index[i]\<close>: \<open>k\<close> names a source, and \<open>getitem\<close> returns what indexing source
  \<open>k\<close> at \<open>sample_index[i] mod max(len(source k), 1)\<close> returns. As \<open>sample_index[i]\<close> is the
  number of earlier slots of source \<open>k\<close>, the \<open>j\<close>-th slot (from 0) allocated to a source of
  length \<open>L > 0\<close> reads its element \<open>j mod L\<close>: the local indices run \<open>0, 1, \<dots>, L - 1\<close> and
  start again. (An empty source raises \<open>IndexError\<close> on both sides of the equation.) The
  witness is a source of length 3 allocated 7 slots, read at \<open>0, 1, 2, 0, 1, 2, 0\<close>.
\<close>

theorem getitem_resolves:
  assumes "init None dss wa = Inr v" and "0 \<le> i" and "i < int (len v)"
    and "k = dataset_index v ! nat i"
  shows "k < length dss
     \<and> getitem v i = getitem_seq (dss ! k)
           (int (dataset_sample_index v ! nat i mod max (length (dss ! k)) 1))
     \<and> dataset_sample_index v ! nat i = picks_before (dataset_index v) (nat i) k
     \<and> (0 < length (dss ! k) \<longrightarrow>
          getitem v i = Inr (dss ! k ! (picks_before (dataset_index v) (nat i) k mod length (dss ! k))))
     \<and> (length (dss ! k) = 0 \<longrightarrow> getitem v i = Inl IndexError)"
proof -
  note a = init_None_arrays [OF assms(1)]
  have i: "nat i < size_blender v" using assms(2,3) by (simp add: len_def)
  have k: "k < length dss"
    and s: "dataset_sample_index v ! nat i = picks_before (dataset_index v) (nat i) k"
    using a(5) i assms(4) by auto
  have di: "getitem_seq (dataset_index v) i = Inr k"
    using i a(3) assms(2,4) by (simp add: getitem_seq_def)
  have si: "getitem_seq (dataset_sample_index v) i = Inr (dataset_sample_index v ! nat i)"
    using i a(4) assms(2) by (simp add: getitem_seq_def)
  have ds: "getitem_seq (datasets v) (int k) = Inr (dss ! k)"
    using k a(1) by (simp add: getitem_seq_nat)
  have g: "getitem v i = getitem_seq (dss ! k)
           (int (dataset_sample_index v ! nat i mod max (length (dss ! k)) 1))"
    by (simp add: getitem_def di si ds)
  have u: "getitem v i = (if length (dss ! k) = 0 then Inl IndexError
        else Inr (dss ! k ! (dataset_sample_index v ! nat i mod length (dss ! k))))"
    using k a(1) by (simp add: getitem_unfold di si)
  have c1: "0 < length (dss ! k) \<longrightarrow>
          getitem v i = Inr (dss ! k ! (picks_before (dataset_index v) (nat i) k mod length (dss ! k)))"
    unfolding u s by simp
  have c2: "length (dss ! k) = 0 \<longrightarrow> getitem v i = Inl IndexError"
    unfolding u by simp
  from k g s c1 c2 show ?thesis by blast
qed

theorem getitem_resolves_witness:
  "init None [[10, 11, 12], [20, 21, 22, 23, 24 :: nat]] (Some [7, 1])
     = Inr \<lparr>datasets = [[10, 11, 12], [20, 21, 22, 23, 24]], size_blender = 8,
            dataset_index = [0, 1, 0, 0, 0, 0, 0, 0],
            dataset_sample_index = [0, 0, 1, 2, 3, 4, 5, 6]\<rparr>
   \<and> getitem \<lparr>datasets = [[10, 11, 12], [20, 21, 22, 23, 24 :: nat]], size_blender = 8,
            dataset_index = [0, 1, 0, 0, 0, 0, 0, 0],
            dataset_sample_index = [0, 0, 1, 2, 3, 4, 5, 6]\<rparr> 7
       = Inr ([10, 11, 12] ! (picks_before [0, 1, 0, 0, 0, 0, 0, 0] 7 0 mod 3))
   \<and> map (getitem \<lparr>datasets = [[10, 11, 12], [20, 21, 22, 23, 24 :: nat]], size_blender = 8,
            dataset_index = [0, 1, 0, 0, 0, 0, 0, 0],
            dataset_sample_index = [0, 0, 1, 2, 3, 4, 5, 6]\<rparr>) [0, 2, 3, 4, 5, 6, 7]
       = [Inr 10, Inr 11, Inr 12, Inr 10, Inr 11, Inr 12, Inr 10]"
proof -
  let ?V = "\<lparr>datasets = [[10, 11, 12], [20, 21, 22, 23, 24 :: nat]], size_blender = 8,
            dataset_index = [0, 1, 0, 0, 0, 0, 0, 0],
            dataset_sample_index = [0, 0, 1, 2, 3, 4, 5, 6]\<rparr>"
  have h: "init None [[10, 11, 12], [20, 21, 22, 23, 24 :: nat]] (Some [7, 1]) = Inr ?V"
    by (simp add: init_def normalize_weight_def build_blending_indices_def upt_conv_Cons)
  have r: "(0::int) \<le> 7" "7 < int (len ?V)" "0 = dataset_index ?V ! nat 7"
    by (simp_all add: len_def)
  have m: "map (getitem ?V) [0, 2, 3, 4, 5, 6, 7]
       = [Inr 10, Inr 11, Inr 12, Inr 10, Inr 11, Inr 12, Inr 10]"
    by (simp add: getitem_def getitem_seq_def)
  from getitem_resolves [OF h r]
  have "0 < length ([[10, 11, 12], [20, 21, 22, 23, 24 :: nat]] ! 0) \<longrightarrow>
      getitem ?V 7 = Inr ([[10, 11, 12], [20, 21, 22, 23, 24]] ! 0 !
        (picks_before (dataset_index ?V) (nat 7) 0
           mod length ([[10, 11, 12], [20, 21, 22, 23, 24 :: nat]] ! 0)))"
    by blast
  then have "getitem ?V 7 = Inr ([10, 11, 12] ! (picks_before [0, 1, 0, 0, 0, 0, 0, 0] 7 0 mod 3))"
    by simp
  with h m show ?thesis by simp
qed

text \<open>
  C9, as claimed: every lookup outside \<open>[0, S)\<close>, in particular every negative index, is an
  error. The index arrays are numpy arrays, and an index in \<open>[-S, 0)\<close> counts from their
  end: in the view over the single source \<open>[10, 20]\<close>, index \<open>-1\<close> returns the sample 20.
\<close>

theorem negative_index_counterexample:
  "init None [[10, 20 :: nat]] None
     = Inr \<lparr>datasets = [[10, 20]], size_blender = 2,
            dataset_index = [0, 0], dataset_sample_index = [0, 1]\<rparr>
   \<and> len \<lparr>datasets = [[10, 20 :: nat]], size_blender = 2,
            dataset_index = [0, 0], dataset_sample_index = [0, 1]\<rparr> = 2
   \<and> getitem \<lparr>datasets = [[10, 20 :: nat]], size_blender = 2,
            dataset_index = [0, 0], dataset_sample_index = [0, 1]\<rparr> (- 1) = Inr 20"
  by (simp add: init_def normalize_weight_def build_blending_indices_def upt_conv_Cons
        len_def getitem_def getitem_seq_def)

text \<open>
  C9, amended. In a view of length \<open>S\<close> built by the Python builder, a lookup at \<open>i \<ge> S\<close> or
  \<open>i < -S\<close> raises \<open>IndexError\<close> at once; a lookup at \<open>-S \<le> i < 0\<close> is the lookup at
  \<open>i + S\<close>.
\<close>

theorem getitem_out_of_range:
  assumes "init None dss wa = Inr v"
  shows "(int (len v) \<le> i \<or> i < - int (len v) \<longrightarrow> getitem v i = Inl IndexError)
       \<and> (- int (len v) \<le> i \<and> i < 0 \<longrightarrow> getitem v i = getitem v (i + int (len v)))"
proof -
  note a = init_None_arrays [OF assms]
  have l: "length (dataset_index v) = len v" "length (dataset_sample_index v) = len v"
    using a(3,4) by (simp_all add: len_def)
  have out: "int (len v) \<le> i \<or> i < - int (len v) \<Longrightarrow> getitem_seq (dataset_index v) i = Inl IndexError"
    by (auto simp: getitem_seq_def l)
  have neg: "\<And>xs :: nat list. length xs = len v \<Longrightarrow> - int (len v) \<le> i \<Longrightarrow> i < 0 \<Longrightarrow>
      getitem_seq xs i = getitem_seq xs (i + int (len v))"
    by (simp add: getitem_seq_def)
  show ?thesis
  proof (intro conjI impI)
    assume "int (len v) \<le> i \<or> i < - int (len v)"
    from out [OF this] show "getitem v i = Inl IndexError" by (simp add: getitem_def)
  next
    assume "- int (len v) \<le> i \<and> i < 0"
    then have e: "getitem_seq (dataset_index v) i = getitem_seq (dataset_index v) (i + int (len v))"
        "getitem_seq (dataset_sample_index v) i = getitem_seq (dataset_sample_index v) (i + int (len v))"
      using neg [OF l(1)] neg [OF l(2)] by simp_all
    show "getitem v i = getitem v (i + int (len v))"
      unfolding getitem_def e ..
  qed
qed

theorem getitem_out_of_range_witness:
  "getitem \<lparr>datasets = [[10, 20 :: nat]], size_blender = 2,
            dataset_index = [0, 0], dataset_sample_index = [0, 1]\<rparr> 2 = Inl IndexError
   \<and> getitem \<lparr>datasets = [[10, 20 :: nat]], size_blender = 2,
            dataset_index = [0, 0], dataset_sample_index = [0, 1]\<rparr> (- 3) = Inl IndexError
   \<and> getitem \<lparr>datasets = [[10, 20 :: nat]], size_blender = 2,
            dataset_index = [0, 0], dataset_sample_index = [0, 1]\<rparr> (- 1)
     = getitem \<lparr>datasets = [[10, 20 :: nat]], size_blender = 2,
            dataset_index = [0, 0], dataset_sample_index = [0, 1]\<rparr> 1"
proof -
  let ?V = "\<lparr>datasets = [[10, 20 :: nat]], size_blender = 2,
            dataset_index = [0, 0], dataset_sample_index = [0, 1]\<rparr>"
  have h: "init None [[10, 20 :: nat]] None = Inr ?V"
    by (simp add: init_def normalize_weight_def build_blending_indices_def upt_conv_Cons)
  from getitem_out_of_range [OF h, of 2] getitem_out_of_range [OF h, of "- 3"]
    getitem_out_of_range [OF h, of "- 1"]
  show ?thesis by (simp add: len_def)
qed

subsection \<open>Determinism\<close>

lemma take_Suc_update:
  "i < length xs \<Longrightarrow> take (Suc i) (xs[i := v]) = take i xs @ [v]"
  by (simp add: take_Suc_conv_app_nth)

lemma build_step_sim:
  assumes "same_prefix i st st'"
  shows "rel_sum (=) (same_prefix (Suc i)) (build_step w n i st) (build_step w n i st')"
proof -
  obtain di si cur where st: "st = (di, si, cur)" by (cases st)
  obtain di' si' cur' where st': "st' = (di', si', cur')" by (cases st')
  from assms have eq: "cur' = cur" "length di' = length di" "length si' = length si"
      "take i di = take i di'" "take i si = take i si'"
    by (simp_all add: same_prefix_def st st')
  show ?thesis
    unfolding st st'
    by (auto simp: eq(1,2,3) same_prefix_def take_Suc_update eq(4,5) split: sum.splits prod.splits)
qed

lemma build_loop_sim:
  assumes "same_prefix 0 st st'"
  shows "rel_sum (=) (same_prefix k) (build_loop w n [0..<k] st) (build_loop w n [0..<k] st')"
proof (induction k)
  case 0
  from assms show ?case by simp
next
  case (Suc k)
  show ?case
  proof (cases "build_loop w n [0..<k] st")
    case (Inl e)
    with Suc obtain e' where "build_loop w n [0..<k] st' = Inl e'" "e' = e"
      by (cases "build_loop w n [0..<k] st'") auto
    with Inl show ?thesis by (simp add: build_loop_append)
  next
    case (Inr s)
    with Suc obtain s' where s': "build_loop w n [0..<k] st' = Inr s'" "same_prefix k s s'"
      by (cases "build_loop w n [0..<k] st'") auto
    from build_step_sim [OF s'(2), of w n] Inr s'(1) show ?thesis
      by (cases "build_step w n k s"; cases "build_step w n k s'")
         (simp_all add: build_loop_append)
  qed
qed

lemma build_step_length:
  "build_step w n i st = Inr st' \<Longrightarrow>
     length (fst st') = length (fst st) \<and> length (fst (snd st')) = length (fst (snd st))"
  by (cases st) (auto split: if_splits sum.splits prod.splits)

lemma build_loop_length:
  "build_loop w n xs st = Inr st' \<Longrightarrow>
     length (fst st') = length (fst st) \<and> length (fst (snd st')) = length (fst (snd st))"
proof (induction xs arbitrary: st)
  case Nil
  then show ?case by simp
next
  case (Cons x xs)
  then obtain s where s: "build_step w n x st = Inr s" "build_loop w n xs s = Inr st'"
    by (auto split: sum.splits)
  from Cons.IH [OF s(2)] build_step_length [OF s(1)] show ?case by simp
qed

lemma build_independent_of_contents:
  assumes "length di0 = S" "length di0' = S" "length si0 = S" "length si0' = S"
  shows "build_blending_indices di0 si0 w n S = build_blending_indices di0' si0' w n S"
proof -
  let ?a = "build_loop w n [0..<S] (di0, si0, replicate n 0)"
  let ?b = "build_loop w n [0..<S] (di0', si0', replicate n 0)"
  have "same_prefix 0 (di0, si0, replicate n 0) (di0', si0', replicate n 0)"
    using assms by (simp add: same_prefix_def)
  from build_loop_sim [OF this, of S w n]
  have rel: "rel_sum (=) (same_prefix S) ?a ?b" .
  show ?thesis
  proof (cases ?a)
    case (Inl e)
    with rel have "?b = Inl e" by (cases ?b) auto
    with Inl show ?thesis by (simp add: build_blending_indices_def)
  next
    case (Inr s)
    with rel obtain s' where s': "?b = Inr s'" "same_prefix S s s'" by (cases ?b) auto
    obtain di si cur where s_eq: "s = (di, si, cur)" by (cases s)
    obtain di' si' cur' where s'_eq: "s' = (di', si', cur')" by (cases s')
    from build_loop_length [OF Inr] assms s_eq have l: "length di = S" "length si = S" by auto
    from build_loop_length [OF s'(1)] assms s'_eq have l': "length di' = S" "length si' = S" by auto
    from s'(2) l l' have "di = di'" "si = si'" by (auto simp: same_prefix_def s_eq s'_eq)
    with Inr s'(1) show ?thesis by (simp add: build_blending_indices_def s_eq s'_eq)
  qed
qed

lemma init_depends_on_lengths:
  assumes "map length dss = map length dss'"
  shows "map_sum id (\<lambda>v. (size_blender v, dataset_index v, dataset_sample_index v))
            (init cpp_utils dss wa)
       = map_sum id (\<lambda>v. (size_blender v, dataset_index v, dataset_sample_index v))
            (init cpp_utils dss' wa)"
proof -
  have "length (map length dss) = length (map length dss')" using assms by simp
  then have l: "length dss = length dss'" by simp
  show ?thesis
    unfolding init_def Let_def assms l
    by (simp split: sum.splits option.splits prod.splits)
qed

text \<open>
  C5. The builder and the constructor are functions of their arguments in this embedding;
  what the theorem adds is that nothing else reaches the result. The arrays the builder
  returns do not depend on what the arrays it was handed contained (only on their length
  \<open>S\<close>, the weights and the number of sources); the size and index arrays of a constructed
  view, and whether construction fails and how, depend on the sources only through their
  lengths; and a lookup reads the same position of the same source whatever the samples
  are: replacing every sample \<open>x\<close> by \<open>f x\<close> replaces the result of \<open>getitem\<close> at \<open>i\<close> by
  \<open>f\<close> of it, and leaves an error unchanged.
\<close>

theorem blending_deterministic:
  "(length di0 = S \<and> length di0' = S \<and> length si0 = S \<and> length si0' = S \<longrightarrow>
      build_blending_indices di0 si0 w n S = build_blending_indices di0' si0' w n S)
   \<and> (map length dss = map length dss' \<longrightarrow>
        map_sum id (\<lambda>v. (size_blender v, dataset_index v, dataset_sample_index v))
            (init cpp_utils dss wa)
      = map_sum id (\<lambda>v. (size_blender v, dataset_index v, dataset_sample_index v))
            (init cpp_utils dss' wa))
   \<and> getitem (v\<lparr>datasets := map (map f) (datasets v)\<rparr>) i = map_sum id f (getitem v i)"
proof (intro conjI impI)
  assume "length di0 = S \<and> length di0' = S \<and> length si0 = S \<and> length si0' = S"
  then show "build_blending_indices di0 si0 w n S = build_blending_indices di0' si0' w n S"
    by (intro build_independent_of_contents) simp_all
next
  assume "map length dss = map length dss'"
  then show "map_sum id (\<lambda>v. (size_blender v, dataset_index v, dataset_sample_index v))
            (init cpp_utils dss wa)
      = map_sum id (\<lambda>v. (size_blender v, dataset_index v, dataset_sample_index v))
            (init cpp_utils dss' wa)"
    by (rule init_depends_on_lengths)
next
  show "getitem (v\<lparr>datasets := map (map f) (datasets v)\<rparr>) i = map_sum id f (getitem v i)"
    by (auto simp: getitem_unfold split: sum.splits)
qed

theorem blending_deterministic_witness:
  "build_blending_indices [5, 6, 7] [8, 9, 10] [1/4, 3/4] 2 3
     = build_blending_indices [0, 0, 0] [0, 0, 0] [1/4, 3/4] 2 3
   \<and> map_sum id (\<lambda>v. (size_blender v, dataset_index v, dataset_sample_index v))
            (init None [[10, 20 :: nat]] None)
      = map_sum id (\<lambda>v. (size_blender v, dataset_index v, dataset_sample_index v))
            (init None [[True, False]] None)
   \<and> getitem \<lparr>datasets = [[Suc 10, Suc 20]], size_blender = 2,
            dataset_index = [0, 0], dataset_sample_index = [0, 1]\<rparr> 1
      = map_sum id Suc (getitem \<lparr>datasets = [[10, 20]], size_blender = 2,
            dataset_index = [0, 0], dataset_sample_index = [0, 1]\<rparr> 1)"
  using blending_deterministic [where ?di0.0 = "[5, 6, 7]" and S = 3 and di0' = "[0, 0, 0]"
      and ?si0.0 = "[8, 9, 10]" and si0' = "[0, 0, 0]" and w = "[1/4, 3/4]" and n = 2
      and dss = "[[10, 20 :: nat]]" and dss' = "[[True, False]]" and cpp_utils = None and wa = None
      and f = Suc and i = 1
      and v = "\<lparr>datasets = [[10, 20]], size_blender = 2,
            dataset_index = [0, 0], dataset_sample_index = [0, 1]\<rparr>"]
  by simp

end
